theory Spec2Isabelle
  imports Complex_Main
begin

section \<open>JavaScript numbers\<close>

text \<open>
  The RSI routine of \<^verbatim>\<open>script.js\<close> computes on JavaScript numbers. A number is
  modelled as an exact rational, or one of the three special values a division or an
  out-of-range read can produce: the two infinities and NaN. Arithmetic on finite
  values is exact (the rounding and the overflow of binary64 are not part of the model);
  the special values follow the language's rules. The sign of zero is not modelled:
  in \<^verbatim>\<open>computeRsi\<close> a zero divisor can only be the window itself or \<^verbatim>\<open>1 + rs\<close>,
  both of which are \<^verbatim>\<open>+0\<close>, and comparisons do not distinguish the two zeros.
\<close>

datatype number = Fin rat | PInf | NInf | NaN

fun jneg :: "number \<Rightarrow> number" where
  "jneg (Fin a) = Fin (- a)"
| "jneg PInf = NInf"
| "jneg NInf = PInf"
| "jneg NaN = NaN"

fun jadd :: "number \<Rightarrow> number \<Rightarrow> number" where
  "jadd NaN y = NaN"
| "jadd x NaN = NaN"
| "jadd (Fin a) (Fin b) = Fin (a + b)"
| "jadd PInf NInf = NaN"
| "jadd NInf PInf = NaN"
| "jadd PInf y = PInf"
| "jadd NInf y = NInf"
| "jadd (Fin a) y = y"

definition jsub :: "number \<Rightarrow> number \<Rightarrow> number" where
  "jsub x y = jadd x (jneg y)"

text \<open>Multiplying or dividing an infinity: the sign of the finite operand decides,
  and zero times infinity is NaN.\<close>

fun scale_inf :: "number \<Rightarrow> rat \<Rightarrow> number" where
  "scale_inf x a = (if a = 0 then NaN else if 0 < a then x else jneg x)"

fun jmul :: "number \<Rightarrow> number \<Rightarrow> number" where
  "jmul NaN y = NaN"
| "jmul x NaN = NaN"
| "jmul (Fin a) (Fin b) = Fin (a * b)"
| "jmul (Fin a) y = scale_inf y a"
| "jmul x (Fin b) = scale_inf x b"
| "jmul PInf y = y"
| "jmul NInf y = jneg y"

fun jdiv :: "number \<Rightarrow> number \<Rightarrow> number" where
  "jdiv NaN y = NaN"
| "jdiv x NaN = NaN"
| "jdiv (Fin a) (Fin b) =
     (if b \<noteq> 0 then Fin (a / b)
      else if a = 0 then NaN else if 0 < a then PInf else NInf)"
| "jdiv (Fin a) y = Fin 0"
| "jdiv x (Fin b) = (if 0 \<le> b then x else jneg x)"
| "jdiv x y = NaN"

text \<open>\<^verbatim>\<open>Math.abs(d)\<close>, \<^verbatim>\<open>d >= 0\<close> and \<^verbatim>\<open>down === 0\<close>.\<close>

fun jabs :: "number \<Rightarrow> number" where
  "jabs (Fin a) = Fin \<bar>a\<bar>"
| "jabs PInf = PInf"
| "jabs NInf = PInf"
| "jabs NaN = NaN"

fun jge0 :: "number \<Rightarrow> bool" where
  "jge0 (Fin a) = (0 \<le> a)"
| "jge0 PInf = True"
| "jge0 NInf = False"
| "jge0 NaN = False"

fun jeq0 :: "number \<Rightarrow> bool" where
  "jeq0 (Fin a) = (a = 0)"
| "jeq0 x = False"

text \<open>
  Reading an array at an index: \<^verbatim>\<open>deltas[i]\<close> is \<^verbatim>\<open>undefined\<close> outside
  \<^verbatim>\<open>0 .. deltas.length - 1\<close>. Where the routine uses the element it is converted to a
  number (\<^verbatim>\<open>undefined >= 0\<close>, \<^verbatim>\<open>Math.abs(undefined)\<close>), and that conversion is NaN.
\<close>

definition at_index :: "'a list \<Rightarrow> int \<Rightarrow> 'a option" where
  "at_index xs i = (if 0 \<le> i \<and> i < int (length xs) then Some (xs ! nat i) else None)"

fun to_number :: "number option \<Rightarrow> number" where
  "to_number None = NaN"
| "to_number (Some x) = x"

text \<open>\<^verbatim>\<open>xs.slice(0, e)\<close>: a negative end counts from the end of the array.\<close>

definition slice0 :: "'a list \<Rightarrow> int \<Rightarrow> 'a list" where
  "slice0 xs e = (if e < 0 then take (nat (int (length xs) + e)) xs else take (nat e) xs)"

section \<open>The RSI routine\<close>

text \<open>An entry of the returned array: \<^verbatim>\<open>null\<close> or a number.\<close>

datatype entry = Null | Val number

text \<open>\<^verbatim>\<open>for (let i = 1; i < closes.length; i++) deltas.push(closes[i] - closes[i - 1])\<close>\<close>

definition deltas_of :: "number list \<Rightarrow> number list" where
  "deltas_of closes = map (\<lambda>i. jsub (closes ! i) (closes ! (i - 1))) [1..<length closes]"

text \<open>The body of \<^verbatim>\<open>seed.forEach\<close>, on the pair \<^verbatim>\<open>(up, down)\<close>.\<close>

definition seed_acc :: "number \<Rightarrow> number \<times> number \<Rightarrow> number \<times> number" where
  "seed_acc d acc =
     (if jge0 d then (jadd (fst acc) d, snd acc) else (fst acc, jadd (snd acc) (jabs d)))"

text \<open>\<^verbatim>\<open>up / (down === 0 ? 1 : down)\<close>\<close>

definition rs_of :: "number \<Rightarrow> number \<Rightarrow> number" where
  "rs_of up down = jdiv up (if jeq0 down then Fin 1 else down)"

text \<open>The variables the rolling loop updates.\<close>

record rsi_state =
  avgUp :: number
  avgDown :: number
  rs :: number
  rsi :: "entry list"

text \<open>Lines 399 to 403: the seed slice, its two sums, the two averages and \<^verbatim>\<open>rs\<close>.\<close>

definition seed_phase :: "number list \<Rightarrow> int \<Rightarrow> number \<times> number \<times> number" where
  "seed_phase deltas len =
     (let seed = slice0 deltas len;
          acc = fold seed_acc seed (Fin 0, Fin 0);
          up = jdiv (fst acc) (Fin (of_int len));
          down = jdiv (snd acc) (Fin (of_int len))
      in (up, down, rs_of up down))"

text \<open>\<^verbatim>\<open>for (let i = 0; i <= length; i++) rsi.push(null)\<close>\<close>

function push_nulls :: "int \<Rightarrow> int \<Rightarrow> entry list \<Rightarrow> entry list" where
  "push_nulls len i out = (if i \<le> len then push_nulls len (i + 1) (out @ [Null]) else out)"
  by pat_completeness auto
termination
  by (relation "measure (\<lambda>(len, i, out). nat (len + 1 - i))") auto

text \<open>The body of the rolling loop, for the delta \<^verbatim>\<open>d\<close>.\<close>

definition rolling_step :: "int \<Rightarrow> number \<Rightarrow> rsi_state \<Rightarrow> rsi_state" where
  "rolling_step len d s =
     (let n = Fin (of_int len);
          n1 = Fin (of_int (len - 1));
          u = (if jge0 d then jdiv (jadd (jmul (avgUp s) n1) d) n
               else jdiv (jmul (avgUp s) n1) n);
          dn = (if jge0 d then jdiv (jmul (avgDown s) n1) n
                else jdiv (jadd (jmul (avgDown s) n1) (jabs d)) n);
          r = rs_of u dn
      in \<lparr>avgUp = u, avgDown = dn, rs = r,
          rsi = rsi s @ [Val (jsub (Fin 100) (jdiv (Fin 100) (jadd (Fin 1) r)))]\<rparr>)"

text \<open>\<^verbatim>\<open>for (let i = length; i < deltas.length; i++) { const d = deltas[i]; ... }\<close>\<close>

function rolling :: "number list \<Rightarrow> int \<Rightarrow> int \<Rightarrow> rsi_state \<Rightarrow> rsi_state" where
  "rolling deltas len i s =
     (if i < int (length deltas)
      then rolling deltas len (i + 1) (rolling_step len (to_number (at_index deltas i)) s)
      else s)"
  by pat_completeness auto
termination
  by (relation "measure (\<lambda>(deltas, len, i, s). nat (int (length deltas) - i))") auto

text \<open>\<^verbatim>\<open>while (rsi.length < closes.length) rsi.unshift(null)\<close>\<close>

function unshift_nulls :: "nat \<Rightarrow> entry list \<Rightarrow> entry list" where
  "unshift_nulls n out = (if length out < n then unshift_nulls n (Null # out) else out)"
  by pat_completeness auto
termination
  by (relation "measure (\<lambda>(n, out). n - length out)") auto

text \<open>The state when the rolling loop ends, and the routine itself.\<close>

definition final_state :: "number list \<Rightarrow> int \<Rightarrow> rsi_state" where
  "final_state closes len =
     (let deltas = deltas_of closes;
          sd = seed_phase deltas len
      in rolling deltas len len
           \<lparr>avgUp = fst sd, avgDown = fst (snd sd), rs = snd (snd sd),
            rsi = push_nulls len 0 []\<rparr>)"

definition computeRsi :: "number list \<Rightarrow> int \<Rightarrow> entry list" where
  "computeRsi closes len = unshift_nulls (length closes) (rsi (final_state closes len))"

section \<open>The routine with the array length limit\<close>

text \<open>
  The routine has no \<^verbatim>\<open>throw\<close> and no check of its arguments, and arithmetic on numbers
  never raises. What can raise is growing the result: an array holds at most
  \<open>2^32 - 1\<close> entries, and the \<^verbatim>\<open>push\<close> or \<^verbatim>\<open>unshift\<close> that would exceed that raises
  \<^verbatim>\<open>RangeError\<close>. The definitions above leave the limit out; these add it. The argument
  \<^verbatim>\<open>closes\<close> is itself an array, so \<^verbatim>\<open>deltas\<close>, which is shorter, always fits.
\<close>

datatype error = RangeError

definition max_array_length :: nat where
  "max_array_length = 4294967295"

definition push :: "'a list \<Rightarrow> 'a \<Rightarrow> error + 'a list" where
  "push xs x = (if length xs < max_array_length then Inr (xs @ [x]) else Inl RangeError)"

definition unshift :: "'a list \<Rightarrow> 'a \<Rightarrow> error + 'a list" where
  "unshift xs x = (if length xs < max_array_length then Inr (x # xs) else Inl RangeError)"

function push_nulls_js :: "int \<Rightarrow> int \<Rightarrow> entry list \<Rightarrow> error + entry list" where
  "push_nulls_js len i out =
     (if i \<le> len
      then (case push out Null of Inl e \<Rightarrow> Inl e | Inr out' \<Rightarrow> push_nulls_js len (i + 1) out')
      else Inr out)"
  by pat_completeness auto
termination
  by (relation "measure (\<lambda>(len, i, out). nat (len + 1 - i))") auto

text \<open>The body of the rolling loop ends with the push of the new value.\<close>

definition rolling_step_js :: "int \<Rightarrow> number \<Rightarrow> rsi_state \<Rightarrow> error + rsi_state" where
  "rolling_step_js len d s =
     (if length (rsi s) < max_array_length then Inr (rolling_step len d s) else Inl RangeError)"

function rolling_js :: "number list \<Rightarrow> int \<Rightarrow> int \<Rightarrow> rsi_state \<Rightarrow> error + rsi_state" where
  "rolling_js deltas len i s =
     (if i < int (length deltas)
      then (case rolling_step_js len (to_number (at_index deltas i)) s of
              Inl e \<Rightarrow> Inl e
            | Inr s' \<Rightarrow> rolling_js deltas len (i + 1) s')
      else Inr s)"
  by pat_completeness auto
termination
  by (relation "measure (\<lambda>(deltas, len, i, s). nat (int (length deltas) - i))") auto

function unshift_nulls_js :: "nat \<Rightarrow> entry list \<Rightarrow> error + entry list" where
  "unshift_nulls_js n out =
     (if length out < n
      then (case unshift out Null of Inl e \<Rightarrow> Inl e | Inr out' \<Rightarrow> unshift_nulls_js n out')
      else Inr out)"
  by pat_completeness auto
termination
  by (relation "measure (\<lambda>(n, out). n - length out)") (auto simp: unshift_def split: if_splits)

definition computeRsi_js :: "number list \<Rightarrow> int \<Rightarrow> error + entry list" where
  "computeRsi_js closes len =
     (let deltas = deltas_of closes;
          sd = seed_phase deltas len
      in case push_nulls_js len 0 [] of
           Inl e \<Rightarrow> Inl e
         | Inr out \<Rightarrow>
             (case rolling_js deltas len len
                     \<lparr>avgUp = fst sd, avgDown = fst (snd sd), rs = snd (snd sd), rsi = out\<rparr> of
                Inl e \<Rightarrow> Inl e
              | Inr s \<Rightarrow> unshift_nulls_js (length closes) (rsi s)))"

text \<open>An entry is in range when it is null or a finite number from 0 to 100.\<close>

fun in_range :: "entry \<Rightarrow> bool" where
  "in_range Null = True"
| "in_range (Val (Fin r)) = (0 \<le> r \<and> r \<le> 100)"
| "in_range (Val x) = False"

text \<open>A number that is not negative: NaN, the positive infinity, or a finite value from 0 up.\<close>

fun not_negative :: "number \<Rightarrow> bool" where
  "not_negative (Fin a) = (0 \<le> a)"
| "not_negative PInf = True"
| "not_negative NInf = False"
| "not_negative NaN = True"

text \<open>An entry that is null, NaN, or a finite number from 0 to 100.\<close>

fun nan_or_in_range :: "entry \<Rightarrow> bool" where
  "nan_or_in_range (Val NaN) = True"
| "nan_or_in_range e = in_range e"

section \<open>The algorithm as the specification words it\<close>

text \<open>
  The specification describes the routine on plain numbers: successive differences, the
  two seed sums, Wilder's smoothing step, the relative strength with its substitution
  rule, and the emitted value. These definitions follow its words; the theorems below
  compare them with the routine.
\<close>

definition spec_deltas :: "rat list \<Rightarrow> rat list" where
  "spec_deltas cs = map (\<lambda>i. cs ! i - cs ! (i - 1)) [1..<length cs]"

definition spec_sumGain :: "rat list \<Rightarrow> rat" where
  "spec_sumGain ds = sum_list (filter (\<lambda>d. 0 \<le> d) ds)"

definition spec_sumLoss :: "rat list \<Rightarrow> rat" where
  "spec_sumLoss ds = sum_list (map abs (filter (\<lambda>d. d < 0) ds))"

fun spec_smooth :: "rat \<Rightarrow> rat \<Rightarrow> rat \<times> rat \<Rightarrow> rat \<times> rat" where
  "spec_smooth w d (g, l) =
     (if 0 \<le> d then ((g * (w - 1) + d) / w, (l * (w - 1)) / w)
      else ((g * (w - 1)) / w, (l * (w - 1) + \<bar>d\<bar>) / w))"

definition spec_rs :: "rat \<times> rat \<Rightarrow> rat" where
  "spec_rs a = fst a / (if snd a = 0 then 1 else snd a)"

definition spec_rsi :: "rat \<times> rat \<Rightarrow> rat" where
  "spec_rsi a = 100 - 100 / (1 + spec_rs a)"

text \<open>The pairs (average gain, average loss) after each delta of the rolling phase.\<close>

fun spec_trace :: "rat \<Rightarrow> rat \<times> rat \<Rightarrow> rat list \<Rightarrow> (rat \<times> rat) list" where
  "spec_trace w a [] = []"
| "spec_trace w a (d # ds) = spec_smooth w d a # spec_trace w (spec_smooth w d a) ds"

text \<open>The seed averages of a price list for a window.\<close>

definition spec_seed :: "rat \<Rightarrow> rat list \<Rightarrow> rat \<times> rat" where
  "spec_seed w ds = (spec_sumGain ds / w, spec_sumLoss ds / w)"

section \<open>The loops in closed form\<close>

declare push_nulls.simps [simp del] rolling.simps [simp del] unshift_nulls.simps [simp del]

declare push_nulls_js.simps [simp del] rolling_js.simps [simp del] unshift_nulls_js.simps [simp del]

lemma push_nulls_eq: "push_nulls len i out = out @ replicate (nat (len + 1 - i)) Null"
proof (induction len i out rule: push_nulls.induct)
  case (1 len i out)
  show ?case
  proof (cases "i \<le> len")
    case True
    then have "nat (len + 1 - i) = Suc (nat (len + 1 - (i + 1)))" by simp
    with True 1 show ?thesis
      by (subst push_nulls.simps) (simp add: replicate_append_same)
  next
    case False
    then show ?thesis by (subst push_nulls.simps) simp
  qed
qed

lemma unshift_nulls_eq: "unshift_nulls n out = replicate (n - length out) Null @ out"
proof (induction n out rule: unshift_nulls.induct)
  case (1 n out)
  show ?case
  proof (cases "length out < n")
    case True
    then have "n - length out = Suc (n - Suc (length out))" by simp
    with True 1 show ?thesis
      by (subst unshift_nulls.simps) (simp add: replicate_append_same)
  next
    case False
    then show ?thesis by (subst unshift_nulls.simps) simp
  qed
qed

text \<open>From a non-negative start index the rolling loop visits the deltas from that
  index on, in order.\<close>

lemma rolling_fold:
  "0 \<le> i \<Longrightarrow> rolling deltas len i s = fold (rolling_step len) (drop (nat i) deltas) s"
proof (induction deltas len i s rule: rolling.induct)
  case (1 deltas len i s)
  show ?case
  proof (cases "i < int (length deltas)")
    case True
    with 1 have lt: "nat i < length deltas" by simp
    have d: "drop (nat i) deltas = deltas ! nat i # drop (nat (i + 1)) deltas"
      using lt 1(2) by (simp add: Cons_nth_drop_Suc nat_add_distrib)
    show ?thesis
      using True 1 by (subst rolling.simps) (simp add: d at_index_def)
  next
    case False
    then show ?thesis using 1(2) by (subst rolling.simps) simp
  qed
qed

section \<open>Finite prices: the routine computes what the specification words\<close>

lemma deltas_of_Fin: "deltas_of (map Fin cs) = map Fin (spec_deltas cs)"
  by (auto simp: deltas_of_def spec_deltas_def jsub_def)

lemma length_spec_deltas: "length (spec_deltas cs) = length cs - 1"
  by (simp add: spec_deltas_def)

lemma length_deltas_of: "length (deltas_of closes) = length closes - 1"
  by (simp add: deltas_of_def)

lemma spec_sumGain_nonneg: "0 \<le> spec_sumGain ds"
  unfolding spec_sumGain_def by (induction ds) auto

lemma spec_sumLoss_nonneg: "0 \<le> spec_sumLoss ds"
  unfolding spec_sumLoss_def by (induction ds) auto

lemma fold_seed_acc_Fin:
  "fold seed_acc (map Fin ds) (Fin a, Fin b) = (Fin (a + spec_sumGain ds), Fin (b + spec_sumLoss ds))"
  by (induction ds arbitrary: a b)
     (simp_all add: seed_acc_def spec_sumGain_def spec_sumLoss_def)

lemma seed_phase_Fin:
  assumes "0 < len"
  shows "seed_phase (map Fin ds) len =
    (let a = spec_seed (of_int len) (take (nat len) ds) in (Fin (fst a), Fin (snd a), Fin (spec_rs a)))"
proof -
  have s: "slice0 (map Fin ds) len = map Fin (take (nat len) ds)"
    using assms by (simp add: slice0_def take_map)
  show ?thesis
    using assms
    by (simp add: seed_phase_def Let_def s fold_seed_acc_Fin spec_seed_def rs_of_def spec_rs_def)
qed

lemma spec_seed_nonneg: "0 < w \<Longrightarrow> 0 \<le> fst (spec_seed w ds) \<and> 0 \<le> snd (spec_seed w ds)"
  by (simp add: spec_seed_def spec_sumGain_nonneg spec_sumLoss_nonneg)

lemma spec_smooth_nonneg:
  assumes "1 \<le> w" "0 \<le> fst a" "0 \<le> snd a"
  shows "0 \<le> fst (spec_smooth w d a) \<and> 0 \<le> snd (spec_smooth w d a)"
proof -
  obtain g l where a: "a = (g, l)" by (cases a)
  have w: "0 \<le> w - 1" "0 \<le> w" using assms(1) by simp_all
  have g: "0 \<le> g * (w - 1)" and l: "0 \<le> l * (w - 1)"
    using assms(2,3) w by (simp_all add: a)
  show ?thesis
    using g l w(2) by (auto simp: a intro!: divide_nonneg_nonneg add_nonneg_nonneg)
qed

lemma spec_rs_nonneg: "0 \<le> fst a \<Longrightarrow> 0 \<le> snd a \<Longrightarrow> 0 \<le> spec_rs a"
  by (simp add: spec_rs_def)

lemma rolling_step_Fin:
  assumes "0 < len" "0 \<le> fst a" "0 \<le> snd a"
  shows "rolling_step len (Fin d) \<lparr>avgUp = Fin (fst a), avgDown = Fin (snd a), rs = r, rsi = out\<rparr> =
    (let b = spec_smooth (of_int len) d a in
      \<lparr>avgUp = Fin (fst b), avgDown = Fin (snd b), rs = Fin (spec_rs b),
       rsi = out @ [Val (Fin (spec_rsi b))]\<rparr>)"
proof -
  obtain g l where a: "a = (g, l)" by (cases a)
  define b where "b = spec_smooth (of_int len) d (g, l)"
  have w: "(1::rat) \<le> of_int len" using assms(1) by simp
  have nn: "0 \<le> fst b" "0 \<le> snd b"
    using spec_smooth_nonneg [OF w assms(2,3)] by (simp_all add: b_def a)
  have rs: "0 \<le> spec_rs b" using nn by (rule spec_rs_nonneg)
  have ne: "1 + spec_rs b \<noteq> 0" using rs by linarith
  have w0: "(of_int len :: rat) \<noteq> 0" using assms(1) by simp
  have u: "(if jge0 (Fin d) then jdiv (jadd (jmul (Fin g) (Fin (of_int (len - 1)))) (Fin d)) (Fin (of_int len))
               else jdiv (jmul (Fin g) (Fin (of_int (len - 1)))) (Fin (of_int len))) = Fin (fst b)"
    using w0 by (simp add: b_def)
  have dn: "(if jge0 (Fin d) then jdiv (jmul (Fin l) (Fin (of_int (len - 1)))) (Fin (of_int len))
                else jdiv (jadd (jmul (Fin l) (Fin (of_int (len - 1)))) (jabs (Fin d))) (Fin (of_int len)))
     = Fin (snd b)"
    using w0 by (simp add: b_def)
  have r: "rs_of (Fin (fst b)) (Fin (snd b)) = Fin (spec_rs b)"
    by (simp add: rs_of_def spec_rs_def)
  have e: "jsub (Fin 100) (jdiv (Fin 100) (jadd (Fin 1) (Fin (spec_rs b)))) = Fin (spec_rsi b)"
    using ne by (simp add: jsub_def spec_rsi_def)
  show ?thesis
    unfolding rolling_step_def Let_def
    by (simp only: a rsi_state.simps fst_conv snd_conv b_def [symmetric] u dn r e)
qed

section \<open>The shape of the result\<close>

lemma rolling_step_rsi: "\<exists>v. rsi (rolling_step len d s) = rsi s @ [Val v]"
  by (simp add: rolling_step_def Let_def)

lemma fold_rolling_step_rsi:
  "\<exists>vs. length vs = length ds \<and> rsi (fold (rolling_step len) ds s) = rsi s @ map Val vs"
proof (induction ds arbitrary: s)
  case Nil
  then show ?case by simp
next
  case (Cons d ds)
  obtain v where v: "rsi (rolling_step len d s) = rsi s @ [Val v]"
    using rolling_step_rsi by blast
  obtain vs where vs: "length vs = length ds"
    "rsi (fold (rolling_step len) ds (rolling_step len d s)) = rsi (rolling_step len d s) @ map Val vs"
    using Cons.IH by blast
  have "length (v # vs) = length (d # ds)" using vs(1) by simp
  moreover have "rsi (fold (rolling_step len) (d # ds) s) = rsi s @ map Val (v # vs)"
    using v vs(2) by simp
  ultimately show ?case by blast
qed

lemma final_state_shape:
  assumes "0 \<le> len"
  shows "\<exists>vs. length vs = length closes - 1 - nat len \<and>
    rsi (final_state closes len) = replicate (nat len + 1) Null @ map Val vs"
proof -
  have p: "push_nulls len 0 [] = replicate (nat len + 1) Null"
    using assms by (simp add: push_nulls_eq nat_add_distrib)
  define s0 where "s0 = \<lparr>avgUp = fst (seed_phase (deltas_of closes) len),
    avgDown = fst (snd (seed_phase (deltas_of closes) len)),
    rs = snd (snd (seed_phase (deltas_of closes) len)), rsi = push_nulls len 0 []\<rparr>"
  have f: "final_state closes len = fold (rolling_step len) (drop (nat len) (deltas_of closes)) s0"
    by (simp add: final_state_def Let_def rolling_fold [OF assms] s0_def)
  obtain vs where vs: "length vs = length (drop (nat len) (deltas_of closes))"
    "rsi (fold (rolling_step len) (drop (nat len) (deltas_of closes)) s0) = rsi s0 @ map Val vs"
    using fold_rolling_step_rsi by blast
  have "length vs = length closes - 1 - nat len"
    using vs(1) by (simp add: length_deltas_of)
  moreover have "rsi (final_state closes len) = replicate (nat len + 1) Null @ map Val vs"
    unfolding f vs(2) by (simp add: s0_def p)
  ultimately show ?thesis by blast
qed

lemma computeRsi_shape:
  assumes "0 \<le> len"
  shows "\<exists>vs. length vs = length closes - 1 - nat len \<and>
    computeRsi closes len = replicate (nat len + 1) Null @ map Val vs"
proof -
  obtain vs where vs: "length vs = length closes - 1 - nat len"
    "rsi (final_state closes len) = replicate (nat len + 1) Null @ map Val vs"
    using final_state_shape [OF assms] by blast
  have "length closes - length (rsi (final_state closes len)) = 0"
    using vs by simp
  then have "computeRsi closes len = rsi (final_state closes len)"
    by (simp add: computeRsi_def unshift_nulls_eq)
  with vs show ?thesis by auto
qed

section \<open>The rolling phase on finite prices\<close>

lemma fold_rolling_step_Fin:
  assumes "0 < len"
  shows "0 \<le> fst a \<Longrightarrow> 0 \<le> snd a \<Longrightarrow>
    fold (rolling_step len) (map Fin ds)
      \<lparr>avgUp = Fin (fst a), avgDown = Fin (snd a), rs = Fin r, rsi = out\<rparr> =
    (let b = fold (spec_smooth (of_int len)) ds a in
      \<lparr>avgUp = Fin (fst b), avgDown = Fin (snd b),
       rs = Fin (if ds = [] then r else spec_rs b),
       rsi = out @ map (\<lambda>c. Val (Fin (spec_rsi c))) (spec_trace (of_int len) a ds)\<rparr>)"
proof (induction ds arbitrary: a r out)
  case Nil
  then show ?case by simp
next
  case (Cons d ds)
  define b where "b = spec_smooth (of_int len) d a"
  have w: "(1::rat) \<le> of_int len" using assms by simp
  have nn: "0 \<le> fst b" "0 \<le> snd b"
    using spec_smooth_nonneg [OF w Cons.prems] by (simp_all add: b_def)
  have step: "rolling_step len (Fin d) \<lparr>avgUp = Fin (fst a), avgDown = Fin (snd a), rs = Fin r, rsi = out\<rparr>
    = \<lparr>avgUp = Fin (fst b), avgDown = Fin (snd b), rs = Fin (spec_rs b),
       rsi = out @ [Val (Fin (spec_rsi b))]\<rparr>"
    using rolling_step_Fin [OF assms Cons.prems] by (simp add: Let_def b_def)
  have last: "(if ds = [] then spec_rs b else spec_rs (fold (spec_smooth (of_int len)) ds b))
     = spec_rs (fold (spec_smooth (of_int len)) ds b)"
    by simp
  show ?case
    using Cons.IH [OF nn, of "spec_rs b" "out @ [Val (Fin (spec_rsi b))]"]
    by (simp add: step b_def [symmetric] Let_def last)
qed

lemma final_state_Fin:
  assumes "0 < len"
  shows "final_state (map Fin cs) len =
    (let w = of_int len;
         a = spec_seed w (take (nat len) (spec_deltas cs));
         ds = drop (nat len) (spec_deltas cs);
         b = fold (spec_smooth w) ds a
     in \<lparr>avgUp = Fin (fst b), avgDown = Fin (snd b), rs = Fin (spec_rs b),
         rsi = replicate (nat len + 1) Null @ map (\<lambda>c. Val (Fin (spec_rsi c))) (spec_trace w a ds)\<rparr>)"
proof -
  define a where "a = spec_seed (of_int len) (take (nat len) (spec_deltas cs))"
  have nn: "0 \<le> fst a" "0 \<le> snd a"
    using spec_seed_nonneg [of "of_int len"] assms by (simp_all add: a_def)
  have p: "push_nulls len 0 [] = replicate (nat len + 1) Null"
    using assms by (simp add: push_nulls_eq nat_add_distrib)
  have le: "0 \<le> len" using assms by simp
  have sd: "seed_phase (map Fin (spec_deltas cs)) len = (Fin (fst a), Fin (snd a), Fin (spec_rs a))"
    using seed_phase_Fin [OF assms] by (simp add: Let_def a_def)
  have "final_state (map Fin cs) len =
    fold (rolling_step len) (map Fin (drop (nat len) (spec_deltas cs)))
      \<lparr>avgUp = Fin (fst a), avgDown = Fin (snd a), rs = Fin (spec_rs a),
       rsi = replicate (nat len + 1) Null\<rparr>"
    by (simp add: final_state_def Let_def deltas_of_Fin rolling_fold [OF le] sd p drop_map)
  then show ?thesis
    unfolding fold_rolling_step_Fin [OF assms nn]
    by (simp add: Let_def a_def)
qed

lemma computeRsi_Fin:
  assumes "0 < len"
  shows "computeRsi (map Fin cs) len =
    replicate (nat len + 1) Null @
    map (\<lambda>c. Val (Fin (spec_rsi c)))
      (spec_trace (of_int len) (spec_seed (of_int len) (take (nat len) (spec_deltas cs)))
         (drop (nat len) (spec_deltas cs)))"
proof -
  have len_trace: "length (spec_trace w a ds) = length ds" for w a ds
    by (induction ds arbitrary: a) simp_all
  have "length cs - length (rsi (final_state (map Fin cs) len)) = 0"
    by (simp add: final_state_Fin [OF assms] Let_def len_trace length_spec_deltas)
  then show ?thesis
    by (simp add: computeRsi_def unshift_nulls_eq final_state_Fin [OF assms] Let_def)
qed

section \<open>Flat prices and constant steps\<close>

text \<open>A flat list of differences.\<close>

lemma spec_deltas_replicate: "spec_deltas (replicate n c) = replicate (n - 1) 0"
  by (auto simp: spec_deltas_def list_eq_iff_nth_eq)

lemma spec_seed_flat: "spec_seed w (replicate k 0) = (0, 0)"
  by (induction k) (simp_all add: spec_seed_def spec_sumGain_def spec_sumLoss_def)

lemma spec_trace_flat: "spec_trace w (0, 0) (replicate k 0) = replicate k (0, 0)"
  by (induction k) simp_all

lemma fold_spec_smooth_flat: "fold (spec_smooth w) (replicate k 0) (0, 0) = (0, 0)"
  by (induction k) simp_all

text \<open>Differences that are all the same non-negative step.\<close>

lemma spec_deltas_progression:
  "spec_deltas (map (\<lambda>i. c + of_nat i * s) [0..<n]) = replicate (n - 1) s"
  by (auto simp: spec_deltas_def list_eq_iff_nth_eq algebra_simps of_nat_diff)

lemma spec_sums_step:
  assumes "0 \<le> s"
  shows "spec_sumGain (replicate k s) = of_nat k * s \<and> spec_sumLoss (replicate k s) = 0"
  using assms by (induction k) (simp_all add: spec_sumGain_def spec_sumLoss_def algebra_simps)

lemma spec_smooth_step:
  assumes "0 \<le> s" "w \<noteq> 0"
  shows "spec_smooth w s (s, 0) = (s, 0)"
proof -
  have "(s * (w - 1) + s) / w = s" using assms(2) by (simp add: algebra_simps)
  then show ?thesis using assms(1) by simp
qed

lemma spec_trace_step:
  assumes "0 \<le> s" "w \<noteq> 0"
  shows "spec_trace w (s, 0) (replicate k s) = replicate k (s, 0)"
  by (induction k) (simp_all add: spec_smooth_step [OF assms] del: spec_smooth.simps)

lemma fold_spec_smooth_step:
  assumes "0 \<le> s" "w \<noteq> 0"
  shows "fold (spec_smooth w) (replicate k s) (s, 0) = (s, 0)"
  by (induction k) (simp_all add: spec_smooth_step [OF assms] del: spec_smooth.simps)

section \<open>A window that is zero or negative\<close>

lemma jadd_NaN_right: "jadd x NaN = NaN"
  by (cases x) simp_all

lemma jdiv_NaN_right: "jdiv x NaN = NaN"
  by (cases x) simp_all

lemma rolling_step_NaN:
  assumes "d = NaN \<or> avgDown s = NaN"
  shows "avgDown (rolling_step len d s) = NaN \<and> rsi (rolling_step len d s) = rsi s @ [Val NaN]"
proof -
  define n where "n = Fin (of_int len)"
  define n1 where "n1 = Fin (of_int (len - 1))"
  have dn: "(if jge0 d then jdiv (jmul (avgDown s) n1) n
            else jdiv (jadd (jmul (avgDown s) n1) (jabs d)) n) = NaN"
  proof (cases "d = NaN")
    case True
    then show ?thesis by (simp add: jadd_NaN_right)
  next
    case False
    with assms have "avgDown s = NaN" by simp
    then show ?thesis by simp
  qed
  have r: "rs_of u NaN = NaN" for u
    by (simp add: rs_of_def jdiv_NaN_right)
  have e: "jsub (Fin 100) (jdiv (Fin 100) (jadd (Fin 1) NaN)) = NaN"
    by (simp add: jsub_def)
  show ?thesis
    unfolding rolling_step_def Let_def n_def [symmetric] n1_def [symmetric]
    by (simp only: rsi_state.simps dn r e simp_thms)
qed

lemma rolling_NaN:
  "i < 0 \<or> avgDown s = NaN \<Longrightarrow>
   rsi (rolling deltas len i s) = rsi s @ replicate (nat (int (length deltas) - i)) (Val NaN)"
proof (induction deltas len i s rule: rolling.induct)
  case (1 deltas len i s)
  show ?case
  proof (cases "i < int (length deltas)")
    case True
    define d where "d = to_number (at_index deltas i)"
    have "d = NaN \<or> avgDown s = NaN"
      using "1.prems" by (auto simp: d_def at_index_def)
    then have st: "avgDown (rolling_step len d s) = NaN"
      "rsi (rolling_step len d s) = rsi s @ [Val NaN]"
      using rolling_step_NaN by simp_all
    have n: "nat (int (length deltas) - i) = Suc (nat (int (length deltas) - (i + 1)))"
      using True by simp
    have "rsi (rolling deltas len (i + 1) (rolling_step len d s)) =
      rsi (rolling_step len d s) @ replicate (nat (int (length deltas) - (i + 1))) (Val NaN)"
      using "1.IH" [OF True] st(1) by (simp add: d_def)
    then show ?thesis
      using True by (subst rolling.simps) (simp add: d_def [symmetric] st(2) n)
  next
    case False
    then show ?thesis by (subst rolling.simps) simp
  qed
qed

lemma computeRsi_zero: "computeRsi closes 0 = Null # replicate (length closes - 1) (Val NaN)"
proof -
  have sd: "fst (snd (seed_phase (deltas_of closes) 0)) = NaN"
    by (simp add: seed_phase_def slice0_def Let_def)
  have "rsi (final_state closes 0) = [Null] @ replicate (length closes - 1) (Val NaN)"
    unfolding final_state_def Let_def
    by (subst rolling_NaN) (simp_all add: sd push_nulls_eq length_deltas_of)
  then show ?thesis
    by (simp add: computeRsi_def unshift_nulls_eq)
qed

lemma computeRsi_negative:
  assumes "len < 0"
  shows "computeRsi closes len = replicate (length closes - 1 + nat (- len)) (Val NaN)"
proof -
  have p: "push_nulls len 0 [] = []"
    using assms by (simp add: push_nulls_eq)
  have n: "nat (int (length closes - 1) - len) = length closes - 1 + nat (- len)"
    using assms by linarith
  have "rsi (final_state closes len) = replicate (length closes - 1 + nat (- len)) (Val NaN)"
    unfolding final_state_def Let_def
    using assms by (subst rolling_NaN) (simp_all add: p length_deltas_of n)
  moreover have "length closes - (length closes - 1 + nat (- len)) = 0"
    using assms by linarith
  ultimately show ?thesis
    by (simp add: computeRsi_def unshift_nulls_eq)
qed

section \<open>Intermediate states of the rolling loop\<close>

text \<open>
  The state of the rolling loop after some of its steps is the state in which the loop
  ends on a prefix of the prices: the deltas of a prefix are a prefix of the deltas, and
  the seed only reads the first \<open>window\<close> of them.
\<close>

lemma deltas_of_take: "deltas_of (take m closes) = take (m - 1) (deltas_of closes)"
proof (rule nth_equalityI)
  show "length (deltas_of (take m closes)) = length (take (m - 1) (deltas_of closes))"
    by (simp add: deltas_of_def)
next
  fix i
  assume "i < length (deltas_of (take m closes))"
  then have i: "i + 1 < m" "i + 1 < length closes"
    by (simp_all add: deltas_of_def)
  have u: "[Suc 0..<min (length closes) m] ! i = Suc i" "[Suc 0..<length closes] ! i = Suc i"
    using i by (simp_all add: nth_upt)
  have l: "i < length [Suc 0..<min (length closes) m]" "i < length [Suc 0..<length closes]"
    "i < m - 1"
    using i by simp_all
  have "deltas_of (take m closes) ! i = jsub (take m closes ! Suc i) (take m closes ! i)"
    unfolding deltas_of_def using l(1) u(1) by (simp del: upt_Suc)
  also have "\<dots> = jsub (closes ! Suc i) (closes ! i)"
    using i by simp
  also have "\<dots> = deltas_of closes ! i"
    unfolding deltas_of_def using l(2) u(2) by (simp del: upt_Suc)
  also have "\<dots> = take (m - 1) (deltas_of closes) ! i"
    using l(3) by simp
  finally show "deltas_of (take m closes) ! i = take (m - 1) (deltas_of closes) ! i" .
qed

lemma seed_phase_take:
  assumes "0 \<le> len" and "nat len \<le> k"
  shows "seed_phase (take k ds) len = seed_phase ds len"
  using assms by (simp add: seed_phase_def slice0_def min_def)

lemma final_state_take:
  assumes "0 \<le> len" and "nat len < m"
  shows "final_state (take m closes) len =
    fold (rolling_step len) (take (m - 1 - nat len) (drop (nat len) (deltas_of closes)))
      \<lparr>avgUp = fst (seed_phase (deltas_of closes) len),
       avgDown = fst (snd (seed_phase (deltas_of closes) len)),
       rs = snd (snd (seed_phase (deltas_of closes) len)),
       rsi = push_nulls len 0 []\<rparr>"
proof -
  have k: "nat len \<le> m - 1" using assms(2) by simp
  show ?thesis
    unfolding final_state_def Let_def deltas_of_take seed_phase_take [OF assms(1) k]
    by (simp add: rolling_fold [OF assms(1)] drop_take)
qed

section \<open>Averages are never negative\<close>

lemma not_negative_jadd: "not_negative x \<Longrightarrow> not_negative y \<Longrightarrow> not_negative (jadd x y)"
  by (cases x; cases y) simp_all

lemma not_negative_jmul: "not_negative x \<Longrightarrow> 0 \<le> b \<Longrightarrow> not_negative (jmul x (Fin b))"
  by (cases x) simp_all

lemma not_negative_jdiv: "not_negative x \<Longrightarrow> 0 < b \<Longrightarrow> not_negative (jdiv x (Fin b))"
  by (cases x) simp_all

lemma not_negative_jge0: "jge0 d \<Longrightarrow> not_negative d"
  by (cases d) simp_all

lemma not_negative_jabs: "not_negative (jabs d)"
  by (cases d) simp_all

lemma not_negative_rs_of:
  "not_negative u \<Longrightarrow> not_negative dn \<Longrightarrow> not_negative (rs_of u dn)"
  by (cases u; cases dn) (simp_all add: rs_of_def)

lemma emitted_nan_or_in_range:
  assumes "not_negative r"
  shows "nan_or_in_range (Val (jsub (Fin 100) (jdiv (Fin 100) (jadd (Fin 1) r))))"
proof (cases r)
  case (Fin a)
  with assms have a: "0 \<le> a" by simp
  then have pos: "0 < 1 + a" by linarith
  have "100 / (1 + a) \<le> 100" using a pos by (simp add: divide_le_eq)
  moreover have "0 \<le> 100 / (1 + a)" using pos by simp
  ultimately show ?thesis using pos by (simp add: Fin jsub_def)
qed (use assms in \<open>simp_all add: jsub_def\<close>)

lemma not_negative_seed_acc:
  assumes "not_negative (fst acc)" "not_negative (snd acc)"
  shows "not_negative (fst (seed_acc d acc)) \<and> not_negative (snd (seed_acc d acc))"
  using assms by (simp add: seed_acc_def not_negative_jadd not_negative_jge0 not_negative_jabs)

lemma not_negative_fold_seed_acc:
  "not_negative (fst acc) \<Longrightarrow> not_negative (snd acc) \<Longrightarrow>
   not_negative (fst (fold seed_acc ds acc)) \<and> not_negative (snd (fold seed_acc ds acc))"
proof (induction ds arbitrary: acc)
  case Nil
  then show ?case by simp
next
  case (Cons d ds)
  show ?case
    using Cons.IH [of "seed_acc d acc"] not_negative_seed_acc [OF Cons.prems, of d] by simp
qed

lemma not_negative_seed_phase:
  assumes "0 < len"
  shows "not_negative (fst (seed_phase deltas len)) \<and>
    not_negative (fst (snd (seed_phase deltas len))) \<and>
    not_negative (snd (snd (seed_phase deltas len)))"
proof -
  define acc where "acc = fold seed_acc (slice0 deltas len) (Fin 0, Fin 0)"
  have acc: "not_negative (fst acc)" "not_negative (snd acc)"
    using not_negative_fold_seed_acc [of "(Fin 0, Fin 0)" "slice0 deltas len"]
    by (simp_all add: acc_def)
  have w: "(0::rat) < of_int len" using assms by simp
  have u: "not_negative (jdiv (fst acc) (Fin (of_int len)))"
    and d: "not_negative (jdiv (snd acc) (Fin (of_int len)))"
    using acc w by (simp_all add: not_negative_jdiv)
  show ?thesis
    unfolding seed_phase_def Let_def acc_def [symmetric]
    using u d by (simp add: not_negative_rs_of)
qed

lemma rolling_step_not_negative:
  assumes "0 < len" "not_negative (avgUp s)" "not_negative (avgDown s)"
    "list_all nan_or_in_range (rsi s)"
  shows "not_negative (avgUp (rolling_step len d s)) \<and>
    not_negative (avgDown (rolling_step len d s)) \<and>
    list_all nan_or_in_range (rsi (rolling_step len d s))"
proof -
  define n where "n = Fin (of_int len)"
  define n1 where "n1 = Fin (of_int (len - 1))"
  define u where "u = (if jge0 d then jdiv (jadd (jmul (avgUp s) n1) d) n
               else jdiv (jmul (avgUp s) n1) n)"
  define dn where "dn = (if jge0 d then jdiv (jmul (avgDown s) n1) n
                else jdiv (jadd (jmul (avgDown s) n1) (jabs d)) n)"
  have w: "(0::rat) < of_int len" "(0::rat) \<le> of_int (len - 1)" using assms(1) by simp_all
  have mu: "not_negative (jmul (avgUp s) n1)" and md: "not_negative (jmul (avgDown s) n1)"
    using assms(2,3) w(2) unfolding n1_def by (simp_all only: not_negative_jmul)
  have u: "not_negative u"
  proof (cases "jge0 d")
    case True
    then show ?thesis
      unfolding u_def n_def
      using not_negative_jdiv [OF not_negative_jadd [OF mu not_negative_jge0] w(1)] by simp
  next
    case False
    then show ?thesis
      unfolding u_def n_def using not_negative_jdiv [OF mu w(1)] by simp
  qed
  have dn: "not_negative dn"
  proof (cases "jge0 d")
    case True
    then show ?thesis
      unfolding dn_def n_def using not_negative_jdiv [OF md w(1)] by simp
  next
    case False
    then show ?thesis
      unfolding dn_def n_def
      using not_negative_jdiv [OF not_negative_jadd [OF md not_negative_jabs] w(1)] by simp
  qed
  have r: "not_negative (rs_of u dn)" using u dn by (rule not_negative_rs_of)
  have st: "rolling_step len d s = \<lparr>avgUp = u, avgDown = dn, rs = rs_of u dn,
      rsi = rsi s @ [Val (jsub (Fin 100) (jdiv (Fin 100) (jadd (Fin 1) (rs_of u dn))))]\<rparr>"
    unfolding rolling_step_def Let_def u_def dn_def n_def n1_def by (rule refl)
  show ?thesis
    unfolding st using u dn assms(4) emitted_nan_or_in_range [OF r] by simp
qed

lemma fold_rolling_step_not_negative:
  assumes "0 < len"
  shows "not_negative (avgUp s) \<Longrightarrow> not_negative (avgDown s) \<Longrightarrow>
    list_all nan_or_in_range (rsi s) \<Longrightarrow>
    list_all nan_or_in_range (rsi (fold (rolling_step len) ds s))"
proof (induction ds arbitrary: s)
  case Nil
  then show ?case by simp
next
  case (Cons d ds)
  show ?case
    using Cons.IH [of "rolling_step len d s"]
      rolling_step_not_negative [OF assms Cons.prems, of d]
    by simp
qed

section \<open>Within the array length limit nothing is raised\<close>

lemma push_nulls_js_fits:
  "length out + nat (len + 1 - i) \<le> max_array_length \<Longrightarrow>
   push_nulls_js len i out = Inr (push_nulls len i out)"
proof (induction len i out rule: push_nulls_js.induct)
  case (1 len i out)
  show ?case
  proof (cases "i \<le> len")
    case True
    then have n: "nat (len + 1 - i) = Suc (nat (len + 1 - (i + 1)))" by simp
    with "1.prems" have lt: "length out < max_array_length" by simp
    then have p: "push out Null = Inr (out @ [Null])" by (simp add: push_def)
    have "push_nulls_js len (i + 1) (out @ [Null]) = Inr (push_nulls len (i + 1) (out @ [Null]))"
      using "1.IH" [OF True p] "1.prems" n by simp
    then show ?thesis
      using True p by (subst push_nulls_js.simps, subst push_nulls.simps) simp
  next
    case False
    then show ?thesis by (subst push_nulls_js.simps, subst push_nulls.simps) simp
  qed
qed

lemma push_nulls_js_overflow:
  "length out \<le> max_array_length \<Longrightarrow> max_array_length < length out + nat (len + 1 - i) \<Longrightarrow>
   push_nulls_js len i out = Inl RangeError"
proof (induction len i out rule: push_nulls_js.induct)
  case (1 len i out)
  have le: "i \<le> len" using "1.prems" by (cases "i \<le> len") simp_all
  then have n: "nat (len + 1 - i) = Suc (nat (len + 1 - (i + 1)))" by simp
  show ?case
  proof (cases "length out < max_array_length")
    case True
    then have p: "push out Null = Inr (out @ [Null])" by (simp add: push_def)
    have "push_nulls_js len (i + 1) (out @ [Null]) = Inl RangeError"
      using "1.IH" [OF le p] "1.prems" n True by simp
    then show ?thesis using le p by (subst push_nulls_js.simps) simp
  next
    case False
    then have "push out Null = Inl RangeError" by (simp add: push_def)
    then show ?thesis using le by (subst push_nulls_js.simps) simp
  qed
qed

lemma length_rsi_rolling_step: "length (rsi (rolling_step len d s)) = Suc (length (rsi s))"
  by (simp add: rolling_step_def Let_def)

lemma rolling_js_fits:
  "length (rsi s) + nat (int (length deltas) - i) \<le> max_array_length \<Longrightarrow>
   rolling_js deltas len i s = Inr (rolling deltas len i s)"
proof (induction deltas len i s rule: rolling_js.induct)
  case (1 deltas len i s)
  show ?case
  proof (cases "i < int (length deltas)")
    case True
    define d where "d = to_number (at_index deltas i)"
    from True have n: "nat (int (length deltas) - i) = Suc (nat (int (length deltas) - (i + 1)))"
      by simp
    with "1.prems" have lt: "length (rsi s) < max_array_length" by simp
    then have st: "rolling_step_js len d s = Inr (rolling_step len d s)"
      by (simp add: rolling_step_js_def)
    have "rolling_js deltas len (i + 1) (rolling_step len d s) =
      Inr (rolling deltas len (i + 1) (rolling_step len d s))"
      using "1.IH" [OF True st [unfolded d_def]] "1.prems" n
      by (simp add: d_def length_rsi_rolling_step)
    then show ?thesis
      using True st by (subst rolling_js.simps, subst rolling.simps) (simp add: d_def)
  next
    case False
    then show ?thesis by (subst rolling_js.simps, subst rolling.simps) simp
  qed
qed

lemma unshift_nulls_js_fits:
  "n \<le> max_array_length \<Longrightarrow> unshift_nulls_js n out = Inr (unshift_nulls n out)"
proof (induction n out rule: unshift_nulls_js.induct)
  case (1 n out)
  show ?case
  proof (cases "length out < n")
    case True
    with "1.prems" have "length out < max_array_length" by simp
    then have u: "unshift out Null = Inr (Null # out)" by (simp add: unshift_def)
    show ?thesis
      using True u "1.IH" [OF True u "1.prems"]
      by (subst unshift_nulls_js.simps, subst unshift_nulls.simps) simp
  next
    case False
    then show ?thesis by (subst unshift_nulls_js.simps, subst unshift_nulls.simps) simp
  qed
qed

lemma computeRsi_js_fits:
  assumes "length closes \<le> max_array_length"
    and "nat (len + 1) + nat (int (length (deltas_of closes)) - len) \<le> max_array_length"
  shows "computeRsi_js closes len = Inr (computeRsi closes len)"
proof -
  have p: "push_nulls_js len 0 [] = Inr (push_nulls len 0 [])"
    using assms(2) by (intro push_nulls_js_fits) simp
  have l: "length (push_nulls len 0 []) = nat (len + 1)"
    by (simp add: push_nulls_eq)
  show ?thesis
    unfolding computeRsi_js_def computeRsi_def final_state_def Let_def p
    using assms by (simp add: rolling_js_fits l unshift_nulls_js_fits)
qed

lemma computeRsi_js_overflow:
  assumes "int max_array_length \<le> len"
  shows "computeRsi_js closes len = Inl RangeError"
proof -
  have "push_nulls_js len 0 [] = Inl RangeError"
    using assms by (intro push_nulls_js_overflow) simp_all
  then show ?thesis by (simp add: computeRsi_js_def Let_def)
qed

section \<open>The relative strength follows the averages\<close>

lemma rs_of_zero_loss: "jeq0 down \<Longrightarrow> rs_of up down = up"
  by (cases down; cases up) (simp_all add: rs_of_def)

lemma rs_divisor_not_zero: "\<not> jeq0 (if jeq0 down then Fin 1 else down)"
  by simp

lemma rolling_step_rs:
  "rs (rolling_step len d s) =
   rs_of (avgUp (rolling_step len d s)) (avgDown (rolling_step len d s))"
  by (simp add: rolling_step_def Let_def)

lemma rolling_rs:
  "rs s = rs_of (avgUp s) (avgDown s) \<Longrightarrow>
   rs (rolling deltas len i s) =
   rs_of (avgUp (rolling deltas len i s)) (avgDown (rolling deltas len i s))"
proof (induction deltas len i s rule: rolling.induct)
  case (1 deltas len i s)
  show ?case
  proof (cases "i < int (length deltas)")
    case True
    have eq: "rolling deltas len i s =
      rolling deltas len (i + 1) (rolling_step len (to_number (at_index deltas i)) s)"
      using True by (subst rolling.simps) simp
    show ?thesis
      unfolding eq using "1.IH" [OF True rolling_step_rs] .
  next
    case False
    then have "rolling deltas len i s = s" by (subst rolling.simps) simp
    then show ?thesis using "1.prems" by simp
  qed
qed

lemma seed_phase_rs:
  "snd (snd (seed_phase deltas len)) =
   rs_of (fst (seed_phase deltas len)) (fst (snd (seed_phase deltas len)))"
  by (simp add: seed_phase_def Let_def)

lemma final_state_rs:
  "rs (final_state closes len) =
   rs_of (avgUp (final_state closes len)) (avgDown (final_state closes len))"
  unfolding final_state_def Let_def
  by (rule rolling_rs) (simp add: seed_phase_rs)

section \<open>The claims\<close>

text \<open>
  Claim C1. The specification asks for a result as long as the input, for every input
  and every positive window. The routine does not deliver that on a short input: with
  three prices and the default window 14 it returns fifteen nulls. The final loop of the
  routine pads the result up to the input's length, so the equal length is what the code
  aims at; the unconditional \<open>window + 1\<close> leading nulls overshoot it.
\<close>

theorem computeRsi_three_prices_window_14:
  "computeRsi [Fin 44, Fin 44.25, Fin 44.5] 14 = replicate 15 Null \<and>
   length (computeRsi [Fin 44, Fin 44.25, Fin 44.5] 14) \<noteq> length [Fin 44, Fin 44.25, Fin 44.5]"
  by code_simp

text \<open>
  A price can be the number Infinity. With prices 0, 1, 2, Infinity and window 2 the last
  delta is infinite, the average loss stays 0, and \<open>rs\<close> after the rolling step is
  Infinity; with prices 0, Infinity and window 1 the seed \<open>rs\<close> is Infinity; with prices
  0, Infinity, Infinity and window 1 the rolling step gives NaN.
\<close>

theorem rs_infinite_counterexample:
  "rs (final_state [Fin 0, Fin 1, Fin 2, PInf] 2) = PInf \<and>
   avgDown (final_state [Fin 0, Fin 1, Fin 2, PInf] 2) = Fin 0 \<and>
   snd (snd (seed_phase (deltas_of [Fin 0, PInf]) 1)) = PInf \<and>
   rs (final_state [Fin 0, PInf, PInf] 1) = NaN"
  by code_simp

text \<open>
  Claim C2, as the routine has it. In the seed phase and after every step of the rolling
  phase, \<open>rs\<close> is the average gain divided by the average loss, with the divisor 1 when
  the average loss is zero: then \<open>rs\<close> is the average gain itself. The divisor is
  therefore never zero. Nothing more is promised about the quotient: it is infinite or
  NaN when the averages make it so.
\<close>

theorem rs_substitution_rule:
  "(jeq0 down \<longrightarrow> rs_of up down = up) \<and>
   (\<not> jeq0 down \<longrightarrow> rs_of up down = jdiv up down) \<and>
   \<not> jeq0 (if jeq0 down then Fin 1 else down) \<and>
   snd (snd (seed_phase deltas len)) =
     rs_of (fst (seed_phase deltas len)) (fst (snd (seed_phase deltas len))) \<and>
   rs (rolling_step len d s) =
     rs_of (avgUp (rolling_step len d s)) (avgDown (rolling_step len d s)) \<and>
   rs (final_state closes len) =
     rs_of (avgUp (final_state closes len)) (avgDown (final_state closes len))"
  using rs_of_zero_loss [of down up] seed_phase_rs [of deltas len]
    rolling_step_rs [of len d s] final_state_rs [of closes len]
  by (simp add: rs_of_def)

theorem rs_substitution_rule_witness:
  "rs_of (Fin 3) (Fin 0) = Fin 3 \<and> rs_of PInf (Fin 0) = PInf \<and>
   rs_of (Fin 3) (Fin 4) = Fin (3 / 4) \<and>
   snd (snd (seed_phase [Fin 2, Fin (- 1), Fin 4] 3)) = Fin 6 \<and>
   rs (rolling_step 2 (Fin (- 3)) \<lparr>avgUp = Fin 1, avgDown = Fin 0, rs = Fin 1, rsi = []\<rparr>) = Fin (1 / 3) \<and>
   rs (final_state [Fin 44, Fin 44.25, Fin 44.5, Fin 43.75] 2) = Fin (1 / 3)"
proof -
  have a: "fst (seed_phase [Fin 2, Fin (- 1), Fin 4] 3) = Fin 2"
    "fst (snd (seed_phase [Fin 2, Fin (- 1), Fin 4] 3)) = Fin (1 / 3)"
    by code_simp+
  have b: "avgUp (rolling_step 2 (Fin (- 3)) \<lparr>avgUp = Fin 1, avgDown = Fin 0, rs = Fin 1, rsi = []\<rparr>) = Fin (1 / 2)"
    "avgDown (rolling_step 2 (Fin (- 3)) \<lparr>avgUp = Fin 1, avgDown = Fin 0, rs = Fin 1, rsi = []\<rparr>) = Fin (3 / 2)"
    by code_simp+
  have c: "avgUp (final_state [Fin 44, Fin 44.25, Fin 44.5, Fin 43.75] 2) = Fin (1 / 8)"
    "avgDown (final_state [Fin 44, Fin 44.25, Fin 44.5, Fin 43.75] 2) = Fin (3 / 8)"
    by code_simp+
  have d: "jdiv (Fin 3) (Fin 4) = Fin (3 / 4)" "jdiv (Fin 2) (Fin (1 / 3)) = Fin 6"
    "jdiv (Fin (1 / 2)) (Fin (3 / 2)) = Fin (1 / 3)" "jdiv (Fin (1 / 8)) (Fin (3 / 8)) = Fin (1 / 3)"
    by simp_all
  have e: "jeq0 (Fin 0)" "\<not> jeq0 (Fin 4)" "\<not> jeq0 (Fin (1 / 3))" "\<not> jeq0 (Fin (3 / 2))"
    "\<not> jeq0 (Fin (3 / 8))"
    by simp_all
  have t1: "rs_of (Fin 3) (Fin 0) = Fin 3"
    using rs_substitution_rule [of "Fin 0" "Fin 3"] e(1) by blast
  have t2: "rs_of PInf (Fin 0) = PInf"
    using rs_substitution_rule [of "Fin 0" PInf] e(1) by blast
  have t3: "rs_of (Fin 3) (Fin 4) = Fin (3 / 4)"
    using rs_substitution_rule [of "Fin 4" "Fin 3"] e(2) d(1) by metis
  have t4: "rs_of (Fin 2) (Fin (1 / 3)) = Fin 6"
    using rs_substitution_rule [of "Fin (1 / 3)" "Fin 2"] e(3) d(2) by metis
  have t5: "rs_of (Fin (1 / 2)) (Fin (3 / 2)) = Fin (1 / 3)"
    using rs_substitution_rule [of "Fin (3 / 2)" "Fin (1 / 2)"] e(4) d(3) by metis
  have t6: "rs_of (Fin (1 / 8)) (Fin (3 / 8)) = Fin (1 / 3)"
    using rs_substitution_rule [of "Fin (3 / 8)" "Fin (1 / 8)"] e(5) d(4) by metis
  show ?thesis
    using rs_substitution_rule [of "Fin 0" "Fin 3" "[Fin 2, Fin (- 1), Fin 4]" 3]
      rs_substitution_rule [of "Fin 0" "Fin 3" "[]" 2 "Fin (- 3)"
        "\<lparr>avgUp = Fin 1, avgDown = Fin 0, rs = Fin 1, rsi = []\<rparr>"
        "[Fin 44, Fin 44.25, Fin 44.5, Fin 43.75]"]
    unfolding a b c t4 t5 t6 using t1 t2 t3 by simp
qed

text \<open>
  Claim C3. On finite prices the deltas are the successive differences
  \<open>closes[i] - closes[i-1]\<close>. The seed phase takes the first \<open>window\<close> of them; the
  deltas \<open>d \<ge> 0\<close> (zero included) are summed as gains, the absolute values of the deltas
  \<open>d < 0\<close> as losses, and the two seed averages are these sums divided by the window.
\<close>

theorem seed_phase_averages:
  assumes "0 < len"
  shows "deltas_of (map Fin cs) = map Fin (spec_deltas cs) \<and>
    fst (seed_phase (deltas_of (map Fin cs)) len) =
      Fin (spec_sumGain (take (nat len) (spec_deltas cs)) / of_int len) \<and>
    fst (snd (seed_phase (deltas_of (map Fin cs)) len)) =
      Fin (spec_sumLoss (take (nat len) (spec_deltas cs)) / of_int len)"
  using seed_phase_Fin [OF assms, of "spec_deltas cs"]
  by (simp add: deltas_of_Fin Let_def spec_seed_def)

theorem seed_phase_averages_witness:
  "deltas_of (map Fin [10, 12, 11, 15]) = map Fin [2, - 1, 4] \<and>
   fst (seed_phase (deltas_of (map Fin [10, 12, 11, 15])) 3) = Fin 2 \<and>
   fst (snd (seed_phase (deltas_of (map Fin [10, 12, 11, 15])) 3)) = Fin (1 / 3)"
proof -
  have h: "(0::int) < 3" by simp
  have a: "spec_deltas [10, 12, 11, 15] = [2, - 1, 4]" by code_simp
  have b: "spec_sumGain (take (nat 3) [2, - 1, 4]) / of_int 3 = 2" by code_simp
  have c: "spec_sumLoss (take (nat 3) [2, - 1, 4]) / of_int 3 = 1 / 3" by code_simp
  show ?thesis
    by (rule seed_phase_averages [OF h, of "[10, 12, 11, 15]", unfolded a b c])
qed

text \<open>
  Claim C4. On finite prices and a positive window, the rolling phase walks the deltas from
  index \<open>window\<close> on. At each one it updates the two averages by Wilder's smoothing (the
  gain branch for \<open>d \<ge> 0\<close>, the loss branch otherwise), and emits \<open>100 - 100 / (1 + rs)\<close>
  with \<open>rs\<close> taken from the updated averages. The result is the \<open>window + 1\<close> leading nulls
  followed by these values; the averages when the loop ends are the smoothed ones.
\<close>

theorem rolling_phase_wilder:
  assumes "0 < len"
  shows "computeRsi (map Fin cs) len =
      replicate (nat len + 1) Null @
      map (\<lambda>c. Val (Fin (spec_rsi c)))
        (spec_trace (of_int len) (spec_seed (of_int len) (take (nat len) (spec_deltas cs)))
           (drop (nat len) (spec_deltas cs))) \<and>
    avgUp (final_state (map Fin cs) len) =
      Fin (fst (fold (spec_smooth (of_int len)) (drop (nat len) (spec_deltas cs))
                 (spec_seed (of_int len) (take (nat len) (spec_deltas cs))))) \<and>
    avgDown (final_state (map Fin cs) len) =
      Fin (snd (fold (spec_smooth (of_int len)) (drop (nat len) (spec_deltas cs))
                 (spec_seed (of_int len) (take (nat len) (spec_deltas cs)))))"
  by (simp add: computeRsi_Fin [OF assms] final_state_Fin [OF assms] Let_def)

theorem rolling_phase_wilder_witness:
  "computeRsi (map Fin [44, 44.25, 44.5, 43.75]) 2 = [Null, Null, Null, Val (Fin 25)] \<and>
   avgUp (final_state (map Fin [44, 44.25, 44.5, 43.75]) 2) = Fin (1 / 8) \<and>
   avgDown (final_state (map Fin [44, 44.25, 44.5, 43.75]) 2) = Fin (3 / 8)"
proof -
  have h: "(0::int) < 2" by simp
  have a: "spec_trace (of_int 2) (spec_seed (of_int 2) (take (nat 2) (spec_deltas [44, 44.25, 44.5, 43.75])))
         (drop (nat 2) (spec_deltas [44, 44.25, 44.5, 43.75])) = [(1 / 8, 3 / 8)]"
    by code_simp
  have b: "fold (spec_smooth (of_int 2)) (drop (nat 2) (spec_deltas [44, 44.25, 44.5, 43.75]))
     (spec_seed (of_int 2) (take (nat 2) (spec_deltas [44, 44.25, 44.5, 43.75]))) = (1 / 8, 3 / 8)"
    by code_simp
  have c: "spec_rsi (1 / 8, 3 / 8) = 25" by code_simp
  have d: "replicate (nat 2 + 1) Null = [Null, Null, Null]" by code_simp
  show ?thesis
    using rolling_phase_wilder [OF h, of "[44, 44.25, 44.5, 43.75]"] unfolding a b d
    by (simp add: c)
qed

text \<open>
  Claim C5. For a positive window, no number appears at an index up to \<open>window\<close>: when
  the input has at least \<open>window + 1\<close> prices the first \<open>window + 1\<close> entries of the result
  are null, and when it has fewer every entry of the result is null.
\<close>

theorem leading_entries_null:
  assumes "0 < len"
  shows "(len + 1 \<le> int (length closes) \<longrightarrow>
      take (nat len + 1) (computeRsi closes len) = replicate (nat len + 1) Null) \<and>
    (int (length closes) < len + 1 \<longrightarrow>
      list_all (\<lambda>e. e = Null) (computeRsi closes len))"
proof -
  obtain vs where vs: "length vs = length closes - 1 - nat len"
    "computeRsi closes len = replicate (nat len + 1) Null @ map Val vs"
    using computeRsi_shape [of len closes] assms by auto
  have "take (nat len + 1) (computeRsi closes len) = replicate (nat len + 1) Null"
    unfolding vs(2) by simp
  moreover have "list_all (\<lambda>e. e = Null) (computeRsi closes len)"
    if "int (length closes) < len + 1"
  proof -
    have "vs = []" using vs(1) that by simp
    then show ?thesis unfolding vs(2) by (simp add: list_all_iff)
  qed
  ultimately show ?thesis by blast
qed

theorem leading_entries_null_witness:
  "take 3 (computeRsi [Fin 44, Fin 44.25, Fin 44.5, Fin 43.75] 2) = [Null, Null, Null] \<and>
   list_all (\<lambda>e. e = Null) (computeRsi [Fin 7, Fin 9] 2)"
  using leading_entries_null [of 2 "[Fin 44, Fin 44.25, Fin 44.5, Fin 43.75]"]
    leading_entries_null [of 2 "[Fin 7, Fin 9]"]
  by (simp add: numeral_3_eq_3)

text \<open>
  Three equal prices and window 1: the one number of the result is 0, so not every
  number of the result on a flat price list is 50.
\<close>

theorem flat_prices_counterexample:
  "computeRsi [Fin 5, Fin 5, Fin 5] 1 = [Null, Null, Val (Fin 0)] \<and>
   \<not> list_all (\<lambda>e. e = Null \<or> e = Val (Fin 50)) (computeRsi [Fin 5, Fin 5, Fin 5] 1)"
  by code_simp

text \<open>
  Claim C6, as the routine has it. On a flat list of more than \<open>window + 1\<close> finite prices
  the two averages are zero when the loop ends, and so is \<open>rs\<close>, by the substitution
  rule. The emitted value is then \<open>100 - 100 / (1 + 0)\<close>, which is 0 and not 50: every
  number in the result is exactly 0. The state after some steps of the rolling loop is
  the state in which the loop ends on a prefix of the prices (\<open>final_state_take\<close>), and
  a prefix of a flat list is flat: the averages are zero throughout.
\<close>

theorem flat_prices_zero:
  assumes "0 < len" and "nat len + 1 < n"
  shows "computeRsi (replicate n (Fin c)) len =
      replicate (nat len + 1) Null @ replicate (n - (nat len + 1)) (Val (Fin 0)) \<and>
    avgUp (final_state (replicate n (Fin c)) len) = Fin 0 \<and>
    avgDown (final_state (replicate n (Fin c)) len) = Fin 0 \<and>
    rs (final_state (replicate n (Fin c)) len) = Fin 0"
proof -
  have r: "replicate n (Fin c) = map Fin (replicate n c)" by simp
  have t: "take (nat len) (spec_deltas (replicate n c)) = replicate (nat len) 0"
    using assms(2) by (simp add: spec_deltas_replicate)
  have d: "drop (nat len) (spec_deltas (replicate n c)) = replicate (n - (nat len + 1)) 0"
    by (simp add: spec_deltas_replicate)
  have z: "spec_rsi (0, 0) = 0" "spec_rs (0, 0) = 0"
    by (simp_all add: spec_rsi_def spec_rs_def)
  show ?thesis
    unfolding r computeRsi_Fin [OF assms(1)] final_state_Fin [OF assms(1)] Let_def t d
      spec_seed_flat spec_trace_flat fold_spec_smooth_flat
    by (simp add: z)
qed

theorem flat_prices_zero_witness:
  "computeRsi (replicate 4 (Fin 5)) 2 = [Null, Null, Null, Val (Fin 0)] \<and>
   avgUp (final_state (replicate 4 (Fin 5)) 2) = Fin 0 \<and>
   avgDown (final_state (replicate 4 (Fin 5)) 2) = Fin 0 \<and>
   rs (final_state (replicate 4 (Fin 5)) 2) = Fin 0"
proof -
  have h: "(0::int) < 2" "nat 2 + 1 < (4::nat)" by simp_all
  have a: "replicate (nat 2 + 1) Null @ replicate (4 - (nat 2 + 1)) (Val (Fin 0)) =
    [Null, Null, Null, Val (Fin 0)]"
    by code_simp
  show ?thesis
    by (rule flat_prices_zero [OF h, of 5, unfolded a])
qed

text \<open>
  Prices 1, 2, 3 and window 1: the step is 1, the average loss stays zero, \<open>rs\<close> is the
  average gain 1, and the one number of the result is \<open>100 - 100 / 2 = 50\<close>, not 100.
\<close>

theorem constant_step_counterexample:
  "computeRsi [Fin 1, Fin 2, Fin 3] 1 = [Null, Null, Val (Fin 50)] \<and>
   avgDown (final_state [Fin 1, Fin 2, Fin 3] 1) = Fin 0 \<and>
   \<not> list_all (\<lambda>e. e = Null \<or> e = Val (Fin 100)) (computeRsi [Fin 1, Fin 2, Fin 3] 1)"
  by code_simp

text \<open>
  Claim C7, as the routine has it. On more than \<open>window + 1\<close> finite prices that rise by a
  constant positive step \<open>s\<close>, the average loss is zero when the loop ends (and, by
  \<open>final_state_take\<close> on the prefixes of the list, throughout the rolling phase), the
  average gain is \<open>s\<close>, and with the divisor 1 substituted every number of the result
  is \<open>100 - 100 / (1 + s)\<close>.
\<close>

theorem constant_step_rsi:
  assumes "0 < len" and "0 < s" and "nat len + 1 < n"
  shows "avgDown (final_state (map (\<lambda>i. Fin (c + of_nat i * s)) [0..<n]) len) = Fin 0 \<and>
    avgUp (final_state (map (\<lambda>i. Fin (c + of_nat i * s)) [0..<n]) len) = Fin s \<and>
    computeRsi (map (\<lambda>i. Fin (c + of_nat i * s)) [0..<n]) len =
      replicate (nat len + 1) Null @
      replicate (n - (nat len + 1)) (Val (Fin (100 - 100 / (1 + s))))"
proof -
  have r: "map (\<lambda>i. Fin (c + of_nat i * s)) [0..<n] = map Fin (map (\<lambda>i. c + of_nat i * s) [0..<n])"
    by simp
  have s0: "0 \<le> s" using assms(2) by simp
  have w: "(of_int len :: rat) \<noteq> 0" using assms(1) by simp
  have t: "take (nat len) (spec_deltas (map (\<lambda>i. c + of_nat i * s) [0..<n])) = replicate (nat len) s"
    using assms(3) by (simp add: spec_deltas_progression)
  have d: "drop (nat len) (spec_deltas (map (\<lambda>i. c + of_nat i * s) [0..<n]))
    = replicate (n - (nat len + 1)) s"
    by (simp add: spec_deltas_progression)
  have n: "(of_nat (nat len) :: rat) = of_int len"
    using assms(1) by simp
  have sd: "spec_seed (of_int len) (replicate (nat len) s) = (s, 0)"
    using w by (simp add: spec_seed_def spec_sums_step [OF s0] n)
  have z: "spec_rsi (s, 0) = 100 - 100 / (1 + s)"
    by (simp add: spec_rsi_def spec_rs_def)
  show ?thesis
    unfolding r computeRsi_Fin [OF assms(1)] final_state_Fin [OF assms(1)] Let_def t d sd
      spec_trace_step [OF s0 w] fold_spec_smooth_step [OF s0 w]
    by (simp add: z)
qed

theorem constant_step_rsi_witness:
  "avgDown (final_state (map (\<lambda>i. Fin (10 + of_nat i * 3)) [0..<4]) 2) = Fin 0 \<and>
   avgUp (final_state (map (\<lambda>i. Fin (10 + of_nat i * 3)) [0..<4]) 2) = Fin 3 \<and>
   computeRsi (map (\<lambda>i. Fin (10 + of_nat i * 3)) [0..<4]) 2 = [Null, Null, Null, Val (Fin 75)]"
proof -
  have h: "(0::int) < 2" "(0::rat) < 3" "nat 2 + 1 < (4::nat)" by simp_all
  have a: "replicate (nat 2 + 1) Null @ replicate (4 - (nat 2 + 1)) (Val (Fin (100 - 100 / (1 + 3)))) =
    [Null, Null, Null, Val (Fin 75)]"
    by code_simp
  show ?thesis
    using constant_step_rsi [OF h, of 10] unfolding a by simp
qed

text \<open>
  Prices 0, Infinity, 0 and window 1: the second delta is minus Infinity, the average
  gain becomes Infinity times 0, and the one number of the result is NaN.
\<close>

theorem rsi_nan_counterexample:
  "computeRsi [Fin 0, PInf, Fin 0] 1 = [Null, Null, Val NaN] \<and>
   \<not> list_all in_range (computeRsi [Fin 0, PInf, Fin 0] 1)"
  by code_simp

text \<open>
  Claim C8, as the routine has it. For every list of numbers and every positive window,
  every entry of the result is null, NaN, or a finite number from 0 to 100.
\<close>

theorem rsi_nan_or_in_range:
  assumes "0 < len"
  shows "list_all nan_or_in_range (computeRsi closes len)"
proof -
  have le: "0 \<le> len" using assms by simp
  have p: "list_all nan_or_in_range (push_nulls len 0 [])"
    by (simp add: push_nulls_eq list_all_iff)
  have "list_all nan_or_in_range (rsi (final_state closes len))"
    unfolding final_state_def Let_def rolling_fold [OF le]
    using not_negative_seed_phase [OF assms, of "deltas_of closes"] p
    by (intro fold_rolling_step_not_negative [OF assms]) simp_all
  then show ?thesis
    by (auto simp: computeRsi_def unshift_nulls_eq list_all_iff)
qed

theorem rsi_nan_or_in_range_witness:
  "list_all nan_or_in_range (computeRsi (map Fin [44, 44.25, 44.5, 43.75, 44.65]) 2) \<and>
   computeRsi (map Fin [44, 44.25, 44.5, 43.75, 44.65]) 2 =
     [Null, Null, Null, Val (Fin 25), Val (Fin (1025 / 14))] \<and>
   list_all nan_or_in_range (computeRsi [Fin 0, PInf, Fin 0] 1)"
proof -
  have h: "(0::int) < 2" "(0::int) < 1" by simp_all
  have a: "computeRsi (map Fin [44, 44.25, 44.5, 43.75, 44.65]) 2 =
     [Null, Null, Null, Val (Fin 25), Val (Fin (1025 / 14))]"
    by code_simp
  show ?thesis
    using rsi_nan_or_in_range [OF h(1), of "map Fin [44, 44.25, 44.5, 43.75, 44.65]"]
      rsi_nan_or_in_range [OF h(2), of "[Fin 0, PInf, Fin 0]"] a
    by blast
qed

text \<open>
  Window 0 is not a valid window. The routine raises nothing: it returns a null
  followed by NaN.
\<close>

theorem window_zero_counterexample:
  "computeRsi_js [Fin 1, Fin 2] 0 = Inr [Null, Val NaN]"
proof -
  have a: "computeRsi [Fin 1, Fin 2] 0 = [Null, Val NaN]" by code_simp
  have b: "length (deltas_of [Fin 1, Fin 2]) = 1" by code_simp
  show ?thesis
    using computeRsi_js_fits [of "[Fin 1, Fin 2]" 0]
    by (simp add: a b max_array_length_def)
qed

text \<open>
  Claim C9, as the routine has it. The routine checks nothing about its window and has
  no error of its own; the one thing that raises is an array growing past \<open>2^32 - 1\<close>
  entries. For a positive window below \<open>2^32 - 1\<close> the whole result is produced and
  nothing is raised; from \<open>2^32 - 1\<close> on, the \<^verbatim>\<open>RangeError\<close> comes partway, while the
  leading nulls are pushed. A window that is zero or negative raises nothing before the
  computation: the loops run, and the result is a null followed by one NaN for each delta
  when the window is 0, and \<open>|window|\<close> NaN entries followed by one NaN for each delta
  when it is negative (as long as these fit in an array).
\<close>

theorem window_not_validated:
  assumes "length closes \<le> max_array_length"
  shows "(0 < len \<and> len < int max_array_length \<longrightarrow>
      computeRsi_js closes len = Inr (computeRsi closes len)) \<and>
    (int max_array_length \<le> len \<longrightarrow> computeRsi_js closes len = Inl RangeError) \<and>
    (len = 0 \<longrightarrow>
      computeRsi_js closes len = Inr (Null # replicate (length (deltas_of closes)) (Val NaN))) \<and>
    (len < 0 \<and> int (length (deltas_of closes)) - len \<le> int max_array_length \<longrightarrow>
      computeRsi_js closes len =
        Inr (replicate (length (deltas_of closes) + nat (- len)) (Val NaN)))"
proof -
  have dl: "length (deltas_of closes) = length closes - 1" by (rule length_deltas_of)
  have pos: "computeRsi_js closes len = Inr (computeRsi closes len)"
    if "0 < len" "len < int max_array_length"
  proof -
    have "nat (len + 1) + nat (int (length (deltas_of closes)) - len) \<le> max_array_length"
      using that assms unfolding dl by arith
    then show ?thesis using assms by (intro computeRsi_js_fits)
  qed
  have zero: "computeRsi_js closes 0 = Inr (Null # replicate (length (deltas_of closes)) (Val NaN))"
  proof -
    have "nat (0 + 1) + nat (int (length (deltas_of closes)) - 0) \<le> max_array_length"
      using assms unfolding dl by (simp add: max_array_length_def)
    then have "computeRsi_js closes 0 = Inr (computeRsi closes 0)"
      using assms by (intro computeRsi_js_fits)
    then show ?thesis by (simp add: computeRsi_zero dl)
  qed
  have neg: "computeRsi_js closes len =
      Inr (replicate (length (deltas_of closes) + nat (- len)) (Val NaN))"
    if "len < 0" "int (length (deltas_of closes)) - len \<le> int max_array_length"
  proof -
    have "nat (len + 1) + nat (int (length (deltas_of closes)) - len) \<le> max_array_length"
      using that by arith
    then have "computeRsi_js closes len = Inr (computeRsi closes len)"
      using assms by (intro computeRsi_js_fits)
    then show ?thesis using that(1) by (simp add: computeRsi_negative dl)
  qed
  show ?thesis using pos zero neg computeRsi_js_overflow by blast
qed

theorem window_not_validated_witness:
  "computeRsi_js [Fin 1, Fin 2, Fin 5] 1 = Inr [Null, Null, Val (Fin 75)] \<and>
   computeRsi_js [Fin 1, Fin 2, Fin 5] 4294967295 = Inl RangeError \<and>
   computeRsi_js [Fin 1, Fin 2, Fin 5] 0 = Inr [Null, Val NaN, Val NaN] \<and>
   computeRsi_js [Fin 1, Fin 2, Fin 5] (- 2) = Inr [Val NaN, Val NaN, Val NaN, Val NaN]"
proof -
  have h: "length [Fin 1, Fin 2, Fin 5] \<le> max_array_length"
    by (simp add: max_array_length_def)
  have a: "computeRsi [Fin 1, Fin 2, Fin 5] 1 = [Null, Null, Val (Fin 75)]" by code_simp
  have b: "length (deltas_of [Fin 1, Fin 2, Fin 5]) = 2" by code_simp
  have c: "replicate 2 (Val NaN) = [Val NaN, Val NaN]"
    "replicate (2 + nat (- (- 2))) (Val NaN) = [Val NaN, Val NaN, Val NaN, Val NaN]"
    by code_simp+
  show ?thesis
    using window_not_validated [OF h, of 1] window_not_validated [OF h, of 4294967295]
      window_not_validated [OF h, of 0] window_not_validated [OF h, of "- 2"]
    unfolding a b c by (simp add: max_array_length_def)
qed

text \<open>
  Claim C10. For a positive window and a price list with at most \<open>window\<close> entries (the
  empty list included), the routine returns exactly \<open>window + 1\<close> null entries, which is
  more entries than the input has: the leading nulls are pushed whatever the input is,
  and the final loop only ever adds entries.
\<close>

theorem computeRsi_short_input:
  assumes "0 < len" and "int (length closes) \<le> len"
  shows "computeRsi closes len = replicate (nat len + 1) Null \<and>
         length closes < length (computeRsi closes len)"
proof -
  obtain vs where vs: "length vs = length closes - 1 - nat len"
    "computeRsi closes len = replicate (nat len + 1) Null @ map Val vs"
    using computeRsi_shape [of len closes] assms(1) by auto
  have "vs = []" using vs(1) assms by simp
  with vs(2) assms show ?thesis by simp
qed

theorem computeRsi_short_input_witness:
  "computeRsi [Fin 7, Fin 9] 2 = [Null, Null, Null] \<and>
   length [Fin 7, Fin 9] < length (computeRsi [Fin 7, Fin 9] 2)"
  using computeRsi_short_input [of 2 "[Fin 7, Fin 9]"] by (simp add: numeral_3_eq_3)

end
